theory Spec2Isabelle
  imports Main "HOL-Library.Char_ord" "HOL-Library.List_Lexorder"
begin

section \<open>Errors\<close>

text \<open>
  The error values of errors.go, together with the wrapped forms the code builds with
  \<^verbatim>\<open>fmt.Errorf("%w: ...")\<close> and \<^verbatim>\<open>newSyntaxError(pos, ErrInvalidSyntax, cause)\<close>.
  Source positions (\<^verbatim>\<open>lexer.Position\<close>) only decorate the rendered message and are
  left out. \<^verbatim>\<open>DriverError\<close> stands for an error handed back by the database driver or
  by the SQL builder.
\<close>

datatype syntax_cause =
    ErrNilStructure
  | ErrMismatchQuery
  | ErrMismatchLookup
  | ErrNegativeOffset
  | ErrNegativeLimit
  | ErrMissingSourceKey
  | ErrMissingOperator
  | ErrMissingLeftSide
  | ErrMissingRightSide
  | ErrInvalidConstraint
  | ErrInvalidInOp
  | ErrOpStringRequired
  | ErrBuilderError
  | CountRequiresOneKey
  | DistinctRequiresOneKey
  | UnquoteError

datatype config_cause =
    ErrNoSources
  | ErrUnnamedSource nat
  | ErrNoSourceValues string
  | ErrNotSnakeCased string string
  | ErrEmptySourceValue string nat
  | ErrEmptySourceValueKey string nat
  | ErrParentNotFound string string

datatype error =
    ErrConnDone
  | DriverError string
  | ErrInvalidSyntax syntax_cause
  | ErrInvalidConfig config_cause
  | ErrSourceNotFound string
  | ErrTableNotFound string
  | ErrColumnNotFound string string
  | ErrColumnConfigNotFound string
  | ErrQueryRequiresStub
  | ErrCreateTableSQL string error
  | ErrCreateTable string error
  | ErrCreateIndexSQL string error
  | ErrCreateIndex string error
  | ErrCommitting error
  | ErrUnknownAlias string
  | ErrUnknownSourceName string
  | ErrUnknownSourceRef string
  | ErrNoSourcesRequired
  | ErrAddingVertex string
  | ErrAddingEdge string string
  | ErrCircularDependency "string list"
  | ErrPlanSourceNotFound string
  | ErrNoTopTable "string list"
  | ErrSearching string string
  | ErrNotEnoughConstraints "string list"

section \<open>Name utility: snake case, formal names and aliases\<close>

text \<open>
  Modelled from the spec: \<^verbatim>\<open>strcase.ToSnake\<close> is a function of the third-party package
  github.com/iancoleman/strcase (v0.3.0 in go.mod) and is not among the repository's
  sources. The spec says that snake "lower-cases and inserts underscores at case/digit
  boundaries"; \<open>ToSnake\<close> below is that function in the form the package computes it: the
  input is trimmed of white space, every upper-case letter is lowered, a space, underscore,
  hyphen or dot becomes an underscore, and an underscore is inserted where a letter meets
  a digit, where a lower-case letter meets an upper-case one, and before the last capital
  of a run of capitals that is followed by a lower-case letter. Strings are byte
  sequences; \<open>space_runes\<close> lists the UTF-8 encodings of the Unicode white space that
  \<^verbatim>\<open>strings.TrimSpace\<close> removes.
\<close>

definition isCap :: "char \<Rightarrow> bool" where
  "isCap v = (65 \<le> (of_char v :: nat) \<and> (of_char v :: nat) \<le> 90)"
definition isLow :: "char \<Rightarrow> bool" where
  "isLow v = (97 \<le> (of_char v :: nat) \<and> (of_char v :: nat) \<le> 122)"
definition isNum :: "char \<Rightarrow> bool" where
  "isNum v = (48 \<le> (of_char v :: nat) \<and> (of_char v :: nat) \<le> 57)"
definition toLower :: "char \<Rightarrow> char" where
  "toLower v = (if isCap v then char_of ((of_char v :: nat) + 32) else v)"
definition isDelim :: "char \<Rightarrow> bool" where
  "isDelim v = (v = CHR '' '' \<or> v = CHR ''_'' \<or> v = CHR ''-'' \<or> v = CHR ''.'')"
definition boundary :: "char \<Rightarrow> char \<Rightarrow> bool" where
  "boundary v n = ((isCap v \<and> (isLow n \<or> isNum n)) \<or> (isLow v \<and> (isCap n \<or> isNum n))
       \<or> (isNum v \<and> (isCap n \<or> isLow n)))"
definition plain :: "char \<Rightarrow> char" where
  "plain v = (if isDelim v then CHR ''_'' else toLower v)"

fun delimit :: "char option \<Rightarrow> string \<Rightarrow> string" where
  "delimit prev [] = []"
| "delimit prev [v] = [plain v]"
| "delimit prev (v # n # rest) =
     (if boundary v n then
        (if isCap v \<and> isLow n \<and> (case prev of Some p \<Rightarrow> isCap p | None \<Rightarrow> False) then [CHR ''_''] else [])
        @ [toLower v]
        @ (if isLow v \<or> isNum v \<or> isNum n then [CHR ''_''] else [])
        @ delimit (Some v) (n # rest)
      else plain v # delimit (Some v) (n # rest))"

definition HasPrefix :: "string \<Rightarrow> string \<Rightarrow> bool" where
  "HasPrefix s p = (take (length p) s = p)"
definition TrimPrefix :: "string \<Rightarrow> string \<Rightarrow> string" where
  "TrimPrefix s p = (if HasPrefix s p then drop (length p) s else s)"

definition space_runes :: "string list" where
  "space_runes =
     [[CHR 0x09], [CHR 0x0A], [CHR 0x0B], [CHR 0x0C], [CHR 0x0D], [CHR 0x20],
      [CHR 0xC2, CHR 0x85], [CHR 0xC2, CHR 0xA0], [CHR 0xE1, CHR 0x9A, CHR 0x80],
      [CHR 0xE2, CHR 0x80, CHR 0x80], [CHR 0xE2, CHR 0x80, CHR 0x81],
      [CHR 0xE2, CHR 0x80, CHR 0x82], [CHR 0xE2, CHR 0x80, CHR 0x83],
      [CHR 0xE2, CHR 0x80, CHR 0x84], [CHR 0xE2, CHR 0x80, CHR 0x85],
      [CHR 0xE2, CHR 0x80, CHR 0x86], [CHR 0xE2, CHR 0x80, CHR 0x87],
      [CHR 0xE2, CHR 0x80, CHR 0x88], [CHR 0xE2, CHR 0x80, CHR 0x89],
      [CHR 0xE2, CHR 0x80, CHR 0x8A], [CHR 0xE2, CHR 0x80, CHR 0xA8],
      [CHR 0xE2, CHR 0x80, CHR 0xA9], [CHR 0xE2, CHR 0x80, CHR 0xAF],
      [CHR 0xE2, CHR 0x81, CHR 0x9F], [CHR 0xE3, CHR 0x80, CHR 0x80]]"

definition leading_rune :: "string list \<Rightarrow> string \<Rightarrow> nat" where
  "leading_rune runes s = (case find (HasPrefix s) runes of Some r \<Rightarrow> length r | None \<Rightarrow> 0)"

lemma leading_rune_le: "leading_rune runes s \<le> length s"
proof (cases "find (HasPrefix s) runes")
  case None
  then show ?thesis by (simp add: leading_rune_def)
next
  case (Some r)
  then have "HasPrefix s r" by (auto simp: find_Some_iff)
  then have "length r \<le> length s"
    by (metis HasPrefix_def length_take min.cobounded1)
  with Some show ?thesis by (simp add: leading_rune_def)
qed

function trim_runes :: "string list \<Rightarrow> string \<Rightarrow> string" where
  "trim_runes runes s =
     (if leading_rune runes s = 0 then s else trim_runes runes (drop (leading_rune runes s) s))"
  by pat_completeness auto
termination
proof (relation "measure (\<lambda>(runes, s). length s)")
  show "wf (measure (\<lambda>(runes, s). length s))" by simp
next
  fix runes :: "string list" and s :: string
  assume "leading_rune runes s \<noteq> 0"
  moreover have "leading_rune runes s \<le> length s" by (rule leading_rune_le)
  ultimately show "((runes, drop (leading_rune runes s) s), (runes, s)) \<in> measure (\<lambda>(runes, s). length s)"
    by simp
qed

declare trim_runes.simps [simp del]

definition TrimSpace :: "string \<Rightarrow> string" where
  "TrimSpace s = rev (trim_runes (map rev space_runes) (rev (trim_runes space_runes s)))"

definition ToSnake :: "string \<Rightarrow> string" where
  "ToSnake s = delimit None (TrimSpace s)"

text \<open>
  \<^verbatim>\<open>cSources.formal\<close> and \<^verbatim>\<open>cSources.alias\<close>. The receiver's \<^verbatim>\<open>prefix\<close> field
  (set by \<^verbatim>\<open>newSources\<close> to the snake-cased configured prefix) is the first argument.
  \<open>formal_suffix\<close> is the loop of \<open>formal\<close> over the suffixes of the prefix, from the
  shortest (\<^verbatim>\<open>i = len(parts)-1\<close>) to the whole prefix (\<^verbatim>\<open>i = 0\<close>).
\<close>

fun Split :: "char \<Rightarrow> string \<Rightarrow> string list" where
  "Split d [] = [[]]"
| "Split d (c # cs) =
     (if c = d then [] # Split d cs
      else (case Split d cs of p # ps \<Rightarrow> (c # p) # ps | [] \<Rightarrow> [[c]]))"

fun Join :: "string list \<Rightarrow> string \<Rightarrow> string" where
  "Join [] sep = []"
| "Join [x] sep = x"
| "Join (x # y # zs) sep = x @ sep @ Join (y # zs) sep"

fun formal_suffix :: "string list \<Rightarrow> nat \<Rightarrow> string \<Rightarrow> string option" where
  "formal_suffix parts 0 full = None"
| "formal_suffix parts (Suc i) full =
     (let tmp = Join (drop i parts) ''_'' @ ''_''
      in if HasPrefix full tmp then Some (TrimPrefix full tmp)
         else formal_suffix parts i full)"

definition formal :: "string \<Rightarrow> string \<Rightarrow> string list \<Rightarrow> string" where
  "formal prefix name more_parts =
     (let name' = ToSnake name;
          more' = map ToSnake more_parts;
          full = (if more' \<noteq> [] then name' @ ''_'' @ Join more' ''_'' else name');
          parts = Split CHR ''_'' prefix
      in if prefix = [] then full
         else if full \<noteq> prefix \<and> HasPrefix full (prefix @ ''_'') then full
         else (case formal_suffix parts (length parts) full of
                 Some rest \<Rightarrow> prefix @ ''_'' @ rest
               | None \<Rightarrow> prefix @ ''_'' @ full))"

definition newSources_prefix :: "string \<Rightarrow> string" where
  "newSources_prefix prefix = ToSnake prefix"

definition alias_name :: "string \<Rightarrow> string \<Rightarrow> string" where
  "alias_name prefix name =
     (let name' = ToSnake name
      in if prefix = [] then name'
         else TrimPrefix (formal prefix name' []) (prefix @ ''_''))"



subsection \<open>Character facts\<close>

lemma of_char_toLower: "isCap v \<Longrightarrow> (of_char (toLower v) :: nat) = of_char v + 32"
  by (simp add: toLower_def isCap_def)

lemma isCap_toLower [simp]: "\<not> isCap (toLower v)"
proof (cases "isCap v")
  case True
  then show ?thesis by (simp add: isCap_def[of "toLower v"] of_char_toLower) (simp add: isCap_def)
next
  case False
  then show ?thesis by (simp add: toLower_def)
qed

lemma isLow_toLower [simp]: "isLow (toLower v) = (isCap v \<or> isLow v)"
proof (cases "isCap v")
  case True
  then show ?thesis by (simp add: isLow_def[of "toLower v"] of_char_toLower) (simp add: isCap_def)
next
  case False
  then show ?thesis by (simp add: toLower_def)
qed

lemma isNum_toLower [simp]: "isNum (toLower v) = isNum v"
proof (cases "isCap v")
  case True
  then show ?thesis by (simp add: isNum_def[of "toLower v"] of_char_toLower) (simp add: isCap_def isNum_def)
next
  case False
  then show ?thesis by (simp add: toLower_def)
qed

lemma classes_disjoint:
  "isCap v \<Longrightarrow> \<not> isLow v" "isCap v \<Longrightarrow> \<not> isNum v" "isLow v \<Longrightarrow> \<not> isNum v"
  "isDelim v \<Longrightarrow> \<not> isCap v" "isDelim v \<Longrightarrow> \<not> isLow v" "isDelim v \<Longrightarrow> \<not> isNum v"
  by (auto simp: isCap_def isLow_def isNum_def isDelim_def)


definition untouched :: "char \<Rightarrow> bool" where
  "untouched c = (\<not> isCap c \<and> \<not> isLow c \<and> \<not> isNum c \<and> \<not> isDelim c)"

definition good_char :: "char \<Rightarrow> bool" where
  "good_char c = (\<not> isCap c \<and> c \<noteq> CHR '' '' \<and> c \<noteq> CHR ''-'' \<and> c \<noteq> CHR ''.'')"

lemma good_char_iff: "good_char c = (\<not> isCap c \<and> (isDelim c \<longrightarrow> c = CHR ''_''))"
  by (auto simp: good_char_def isDelim_def)

lemma plain_good [simp]: "good_char (plain v)"
proof (cases "isDelim v")
  case True
  then show ?thesis by (simp add: plain_def good_char_def isCap_def)
next
  case False
  show ?thesis
  proof (cases "isCap v")
    case True
    then have "isLow (toLower v)" by simp
    then have "\<not> isDelim (toLower v)" using classes_disjoint(5) by blast
    with False show ?thesis by (simp add: plain_def good_char_iff)
  next
    case c: False
    with False show ?thesis by (simp add: plain_def good_char_iff toLower_def)
  qed
qed

lemma toLower_good: "\<not> isDelim v \<Longrightarrow> good_char (toLower v)"
  using plain_good [of v] by (simp add: plain_def)

lemma underscore_facts [simp]:
  "good_char CHR ''_''" "\<not> boundary CHR ''_'' c" "\<not> boundary c CHR ''_''"
  by (simp_all add: good_char_def boundary_def isCap_def isLow_def isNum_def)

lemma plain_of_good: "good_char c \<Longrightarrow> plain c = c"
  by (auto simp: good_char_def plain_def isDelim_def toLower_def)

lemma plain_classes [simp]:
  "\<not> isCap (plain v)" "isLow (plain v) = (isCap v \<or> isLow v)" "isNum (plain v) = isNum v"
  using classes_disjoint [of v]
  by (auto simp: plain_def) (auto simp: isCap_def isLow_def isNum_def)

lemma boundary_plain: "\<not> boundary v n \<Longrightarrow> \<not> boundary (plain v) (plain n)"
  unfolding boundary_def by simp blast

lemma boundary_letter:
  "boundary v n \<Longrightarrow> \<not> isLow v \<Longrightarrow> \<not> isNum v \<Longrightarrow> \<not> isNum n \<Longrightarrow> \<not> boundary (toLower v) (plain n)"
  unfolding boundary_def by simp

lemma boundary_not_delim: "boundary v n \<Longrightarrow> \<not> isDelim v"
  using classes_disjoint [of v] by (auto simp: boundary_def)

fun settled :: "string \<Rightarrow> bool" where
  "settled [] = True"
| "settled [c] = good_char c"
| "settled (a # b # r) = (good_char a \<and> \<not> boundary a b \<and> settled (b # r))"

lemma settled_Cons:
  "settled (a # ys) = (good_char a \<and> (ys \<noteq> [] \<longrightarrow> \<not> boundary a (hd ys)) \<and> settled ys)"
  by (cases ys) simp_all

lemma delimit_settled: "settled xs \<Longrightarrow> delimit p xs = xs"
  by (induction p xs rule: delimit.induct) (simp_all add: plain_of_good)

lemma delimit_head:
  "xs \<noteq> [] \<Longrightarrow> delimit p xs \<noteq> [] \<and> (hd (delimit p xs) = CHR ''_'' \<or> hd (delimit p xs) = plain (hd xs))"
proof (induction p xs rule: delimit.induct)
  case (3 prev v n rest)
  show ?case
    using boundary_not_delim [of v n] by (auto simp: plain_def)
qed simp_all

lemma settled_delimit: "settled (delimit p xs)"
proof (induction p xs rule: delimit.induct)
  case (3 prev v n rest)
  let ?out = "delimit (Some v) (n # rest)"
  have ne: "?out \<noteq> []" and hd: "hd ?out = CHR ''_'' \<or> hd ?out = plain n"
    using delimit_head [of "n # rest" "Some v"] by simp_all
  show ?case
  proof (cases "boundary v n")
    case False
    then have "\<not> boundary (plain v) (hd ?out)"
      using hd boundary_plain [of v n] by auto
    with False 3 show ?thesis by (simp add: settled_Cons)
  next
    case True
    then have nd: "\<not> isDelim v" by (rule boundary_not_delim)
    have st: "settled ?out" using 3 True by simp
    have tail: "settled (toLower v # (if isLow v \<or> isNum v \<or> isNum n then [CHR ''_''] else []) @ ?out)"
    proof (cases "isLow v \<or> isNum v \<or> isNum n")
      case True
      then show ?thesis using st nd by (simp add: settled_Cons toLower_good)
    next
      case False
      then have "\<not> boundary (toLower v) (plain n)"
        using boundary_letter [of v n] \<open>boundary v n\<close> by simp
      then have "\<not> boundary (toLower v) (hd ?out)" using hd by auto
      with False st nd show ?thesis by (simp add: settled_Cons toLower_good)
    qed
    show ?thesis
      using True tail by (simp add: settled_Cons)
  qed
qed simp_all

lemma delimit_idem: "delimit q (delimit p xs) = delimit p xs"
  by (rule delimit_settled) (rule settled_delimit)


subsection \<open>Trimming\<close>

lemma leading_rune_zero_iff:
  "[] \<notin> set runes \<Longrightarrow> (leading_rune runes s = 0) = (\<forall>r\<in>set runes. \<not> HasPrefix s r)"
proof (cases "find (HasPrefix s) runes")
  case None
  then have "\<forall>r\<in>set runes. \<not> HasPrefix s r" by (simp add: find_None_iff)
  with None show ?thesis by (simp add: leading_rune_def)
next
  case (Some r)
  assume ne: "[] \<notin> set runes"
  from Some have "r \<in> set runes" and "HasPrefix s r"
    by (auto simp: find_Some_iff)
  with ne Some show ?thesis by (auto simp: leading_rune_def)
qed

lemma trim_runes_fix: "leading_rune runes s = 0 \<Longrightarrow> trim_runes runes s = s"
  by (subst trim_runes.simps) simp

lemma trim_runes_trimmed: "leading_rune runes (trim_runes runes s) = 0"
proof (induction runes s rule: trim_runes.induct)
  case (1 runes s)
  then show ?case by (subst trim_runes.simps) auto
qed

lemma trim_runes_drop: "\<exists>n. trim_runes runes s = drop n s"
proof (induction runes s rule: trim_runes.induct)
  case (1 runes s)
  show ?case
  proof (cases "leading_rune runes s = 0")
    case True
    then have "trim_runes runes s = drop 0 s" by (simp add: trim_runes_fix)
    then show ?thesis by blast
  next
    case False
    with 1 obtain n where "trim_runes runes (drop (leading_rune runes s) s) = drop n (drop (leading_rune runes s) s)"
      by blast
    with False have "trim_runes runes s = drop (n + leading_rune runes s) s"
      by (subst trim_runes.simps) (simp add: add.commute)
    then show ?thesis by blast
  qed
qed

lemma HasPrefix_take: "HasPrefix (take k l) r \<Longrightarrow> HasPrefix l r"
proof -
  assume h: "HasPrefix (take k l) r"
  then have eq: "take (length r) (take k l) = r" by (simp add: HasPrefix_def)
  then have "length r \<le> k"
    by (metis length_take min.cobounded1 min.cobounded2 le_trans)
  with eq show ?thesis by (simp add: HasPrefix_def min_def)
qed

lemma space_runes_nonempty: "[] \<notin> set space_runes" "[] \<notin> set (map rev space_runes)"
  by (simp_all add: space_runes_def)

lemma TrimSpace_trimmed:
  "(\<forall>r\<in>set space_runes. \<not> HasPrefix (TrimSpace s) r)
   \<and> (\<forall>r\<in>set space_runes. \<not> HasPrefix (rev (TrimSpace s)) (rev r))"
proof -
  let ?l = "trim_runes space_runes s"
  let ?m = "trim_runes (map rev space_runes) (rev ?l)"
  have t: "TrimSpace s = rev ?m" by (simp add: TrimSpace_def)
  have l0: "\<forall>r\<in>set space_runes. \<not> HasPrefix ?l r"
    using trim_runes_trimmed [of space_runes s] leading_rune_zero_iff [OF space_runes_nonempty(1)]
    by blast
  have m0: "\<forall>r\<in>set (map rev space_runes). \<not> HasPrefix ?m r"
    using trim_runes_trimmed [of "map rev space_runes" "rev ?l"]
      leading_rune_zero_iff [OF space_runes_nonempty(2)]
    by blast
  obtain n where "?m = drop n (rev ?l)" using trim_runes_drop by blast
  then have "rev ?m = take (length ?l - n) ?l" by (simp add: rev_drop)
  with l0 have "\<forall>r\<in>set space_runes. \<not> HasPrefix (rev ?m) r"
    using HasPrefix_take by metis
  with m0 t show ?thesis by simp
qed

lemma TrimSpace_fix:
  assumes "\<forall>r\<in>set space_runes. \<not> HasPrefix t r"
    and "\<forall>r\<in>set space_runes. \<not> HasPrefix (rev t) (rev r)"
  shows "TrimSpace t = t"
proof -
  have "leading_rune space_runes t = 0"
    using assms(1) leading_rune_zero_iff [OF space_runes_nonempty(1)] by blast
  then have l: "trim_runes space_runes t = t" by (rule trim_runes_fix)
  have "leading_rune (map rev space_runes) (rev t) = 0"
    using assms(2) leading_rune_zero_iff [OF space_runes_nonempty(2)] by auto
  then have "trim_runes (map rev space_runes) (rev t) = rev t" by (rule trim_runes_fix)
  with l show ?thesis by (simp add: TrimSpace_def)
qed


subsection \<open>Bytes the loop passes through\<close>

lemma plain_untouched: "untouched c \<Longrightarrow> plain c = c"
  by (simp add: untouched_def plain_def toLower_def)

lemma plain_eq_untouched: "plain v = c \<Longrightarrow> untouched c \<Longrightarrow> v = c"
proof -
  assume p: "plain v = c" and u: "untouched c"
  have "\<not> isDelim v"
  proof
    assume "isDelim v"
    with p have "c = CHR ''_''" by (simp add: plain_def)
    with u show False by (simp add: untouched_def isDelim_def)
  qed
  moreover have "\<not> isCap v"
  proof
    assume "isCap v"
    then have "isLow (plain v)" by simp
    with p u show False by (simp add: untouched_def)
  qed
  ultimately show ?thesis using p by (simp add: plain_def toLower_def)
qed

lemma untouched_no_boundary [simp]: "untouched c \<Longrightarrow> \<not> boundary v c" "untouched c \<Longrightarrow> \<not> boundary c v"
  by (simp_all add: untouched_def boundary_def)

lemma delimit_Cons_untouched:
  "delimit p xs = c # out \<Longrightarrow> untouched c \<Longrightarrow> \<exists>rest. xs = c # rest \<and> out = delimit (Some c) rest"
proof (induction p xs rule: delimit.induct)
  case (1 prev)
  then show ?case by simp
next
  case (2 prev v)
  then show ?case using plain_eq_untouched [of v c] by auto
next
  case (3 prev v n rest)
  show ?case
  proof (cases "boundary v n")
    case True
    then have nd: "\<not> isDelim v" by (rule boundary_not_delim)
    have "c = CHR ''_'' \<or> c = plain v"
      using "3.prems"(1) True nd by (auto simp: plain_def split: if_splits)
    moreover have "c \<noteq> CHR ''_''" using \<open>untouched c\<close> by (auto simp: untouched_def isDelim_def)
    ultimately have "v = c" using plain_eq_untouched [of v c] \<open>untouched c\<close> by blast
    with True \<open>untouched c\<close> show ?thesis by simp
  next
    case False
    with "3.prems" have "plain v = c" and "out = delimit (Some v) (n # rest)" by simp_all
    with \<open>untouched c\<close> show ?thesis using plain_eq_untouched [of v c] by auto
  qed
qed

lemma delimit_prefix_untouched:
  "\<forall>c\<in>set r. untouched c \<Longrightarrow> HasPrefix (delimit p xs) r \<Longrightarrow> HasPrefix xs r"
proof (induction r arbitrary: p xs)
  case Nil
  then show ?case by (simp add: HasPrefix_def)
next
  case (Cons c r)
  from Cons.prems(2) obtain out where o: "delimit p xs = c # out" and h: "HasPrefix out r"
    by (cases "delimit p xs") (auto simp: HasPrefix_def)
  from o Cons.prems(1) obtain rest where x: "xs = c # rest" and "out = delimit (Some c) rest"
    using delimit_Cons_untouched by fastforce
  with h Cons have "HasPrefix rest r" by simp
  with x show ?case by (simp add: HasPrefix_def)
qed

lemma delimit_snoc_untouched: "untouched c \<Longrightarrow> delimit p (ys @ [c]) = delimit p ys @ [c]"
proof (induction p ys rule: delimit.induct)
  case (1 prev)
  then show ?case by (simp add: plain_untouched)
next
  case (2 prev v)
  then show ?case by (simp add: plain_untouched)
next
  case (3 prev v n rest)
  then show ?case by simp
qed

lemma delimit_last: "xs \<noteq> [] \<Longrightarrow> delimit p xs \<noteq> [] \<and> last (delimit p xs) = plain (last xs)"
proof (induction p xs rule: delimit.induct)
  case (3 prev v n rest)
  then show ?case by simp
qed simp_all

lemma delimit_suffix_untouched:
  "\<forall>c\<in>set r. untouched c \<Longrightarrow> HasPrefix (rev (delimit p xs)) (rev r) \<Longrightarrow> HasPrefix (rev xs) (rev r)"
proof (induction r arbitrary: xs rule: rev_induct)
  case Nil
  then show ?case by (simp add: HasPrefix_def)
next
  case (snoc c r)
  have u: "untouched c" using snoc.prems(1) by simp
  from snoc.prems(2) obtain out where o: "rev (delimit p xs) = c # out" and h: "HasPrefix out (rev r)"
    by (cases "rev (delimit p xs)") (auto simp: HasPrefix_def)
  from o have ne: "delimit p xs \<noteq> []" and l: "last (delimit p xs) = c"
    by (auto simp: rev_eq_Cons_iff)
  then have xne: "xs \<noteq> []" by auto
  with l have "plain (last xs) = c" using delimit_last [of xs p] by simp
  then have "last xs = c" using u by (rule plain_eq_untouched)
  with xne have x: "xs = butlast xs @ [c]" by (metis append_butlast_last_id)
  then have "delimit p xs = delimit p (butlast xs) @ [c]"
    using delimit_snoc_untouched [OF u, of p "butlast xs"] by simp
  with o have "out = rev (delimit p (butlast xs))" by simp
  with h snoc have "HasPrefix (rev (butlast xs)) (rev r)" by simp
  then have "HasPrefix (rev (butlast xs @ [c])) (rev (r @ [c]))" by (simp add: HasPrefix_def)
  with x show ?case by simp
qed

lemma settled_all: "settled xs \<Longrightarrow> \<forall>c\<in>set xs. good_char c"
  by (induction xs rule: settled.induct) simp_all

lemma space_runes_untouched: "list_all (\<lambda>r. r = '' '' \<or> list_all untouched r) space_runes"
  by code_simp

lemma space_runes_cases:
  "r \<in> set space_runes \<Longrightarrow> r = '' '' \<or> (\<forall>c\<in>set r. untouched c)"
  using space_runes_untouched by (auto simp: list_all_iff)

lemma settled_no_space: "settled xs \<Longrightarrow> \<not> HasPrefix xs '' '' \<and> \<not> HasPrefix (rev xs) (rev '' '')"
proof -
  assume "settled xs"
  then have g: "\<forall>c\<in>set xs. c \<noteq> CHR '' ''" using settled_all by (auto simp: good_char_def)
  have "\<not> HasPrefix xs '' ''" using g by (cases xs) (auto simp: HasPrefix_def)
  moreover have "\<not> HasPrefix (rev xs) '' ''"
    using g by (cases "rev xs") (auto simp: HasPrefix_def rev_eq_Cons_iff)
  ultimately show ?thesis by simp
qed

lemma TrimSpace_delimit: "TrimSpace (delimit None (TrimSpace s)) = delimit None (TrimSpace s)"
proof (rule TrimSpace_fix)
  let ?t = "TrimSpace s"
  let ?out = "delimit None ?t"
  have st: "settled ?out" by (rule settled_delimit)
  show "\<forall>r\<in>set space_runes. \<not> HasPrefix ?out r"
  proof
    fix r assume r: "r \<in> set space_runes"
    show "\<not> HasPrefix ?out r"
    proof (cases "r = '' ''")
      case True
      then show ?thesis using settled_no_space [OF st] by simp
    next
      case False
      with r have "\<forall>c\<in>set r. untouched c" using space_runes_cases by blast
      then have "HasPrefix ?out r \<Longrightarrow> HasPrefix ?t r" by (rule delimit_prefix_untouched)
      then show ?thesis using TrimSpace_trimmed r by blast
    qed
  qed
  show "\<forall>r\<in>set space_runes. \<not> HasPrefix (rev ?out) (rev r)"
  proof
    fix r assume r: "r \<in> set space_runes"
    show "\<not> HasPrefix (rev ?out) (rev r)"
    proof (cases "r = '' ''")
      case True
      then show ?thesis using settled_no_space [OF st] by simp
    next
      case False
      with r have "\<forall>c\<in>set r. untouched c" using space_runes_cases by blast
      then have "HasPrefix (rev ?out) (rev r) \<Longrightarrow> HasPrefix (rev ?t) (rev r)"
        by (rule delimit_suffix_untouched)
      then show ?thesis using TrimSpace_trimmed r by blast
    qed
  qed
qed

lemma ToSnake_idem: "ToSnake (ToSnake x) = ToSnake x"
  by (simp add: ToSnake_def TrimSpace_delimit delimit_idem)

section \<open>Round trips of the name utility\<close>

lemma formal_snake: "formal p (ToSnake n) ms = formal p n ms"
  by (simp add: formal_def ToSnake_idem)

lemma formal_prefixed: "p \<noteq> [] \<Longrightarrow> HasPrefix (formal p n ms) (p @ ''_'')"
  by (auto simp: formal_def Let_def HasPrefix_def split: option.splits)

lemma formal_alias: "p \<noteq> [] \<Longrightarrow> formal p n [] = p @ ''_'' @ alias_name p n"
proof -
  assume p: "p \<noteq> []"
  have "HasPrefix (formal p n []) (p @ ''_'')" using p by (rule formal_prefixed)
  then have "formal p n [] = (p @ ''_'') @ drop (length (p @ ''_'')) (formal p n [])"
    by (metis HasPrefix_def append_take_drop_id)
  moreover have "alias_name p n = drop (length (p @ ''_'')) (formal p n [])"
    using p \<open>HasPrefix (formal p n []) (p @ ''_'')\<close>
    by (simp add: alias_name_def Let_def formal_snake TrimPrefix_def)
  ultimately show ?thesis by simp
qed

text \<open>
  \<open>strips prefix s\<close>: the name \<open>s\<close> begins with the prefix and an underscore, or with
  one of the underscore-joined suffixes of the prefix's parts and an underscore; these
  are the beginnings that \<open>formal\<close> looks for.
\<close>

definition strips :: "string \<Rightarrow> string \<Rightarrow> bool" where
  "strips prefix s =
     (HasPrefix s (prefix @ ''_'')
      \<or> list_ex (\<lambda>i. HasPrefix s (Join (drop i (Split CHR ''_'' prefix)) ''_'' @ ''_''))
           [0 ..< length (Split CHR ''_'' prefix)])"

lemma formal_suffix_None:
  "(formal_suffix parts n full = None) = (\<forall>i<n. \<not> HasPrefix full (Join (drop i parts) ''_'' @ ''_''))"
  by (induction n) (auto simp: Let_def less_Suc_eq)

lemma formal_suffix_Some:
  "formal_suffix parts n full = Some rest \<Longrightarrow> length rest < length full"
proof (induction n)
  case 0
  then show ?case by simp
next
  case (Suc n)
  let ?tmp = "Join (drop n parts) ''_'' @ ''_''"
  show ?case
  proof (cases "HasPrefix full ?tmp")
    case True
    with Suc.prems have r: "rest = drop (length ?tmp) full" by (simp add: Let_def TrimPrefix_def)
    from True have "length ?tmp \<le> length full"
      by (metis HasPrefix_def length_take min.cobounded1)
    moreover have "0 < length ?tmp" by simp
    ultimately show ?thesis using r by simp
  next
    case False
    with Suc show ?thesis by (simp add: Let_def)
  qed
qed

lemma formal_of_snake:
  assumes p: "p \<noteq> []" and s: "ToSnake r = r"
  shows "(formal p r [] = p @ ''_'' @ r) = (\<not> strips p r)"
proof (cases "HasPrefix r (p @ ''_'')")
  case True
  then have "length (p @ ''_'') \<le> length r"
    by (metis HasPrefix_def length_take min.cobounded1)
  then have ne: "r \<noteq> p" by auto
  with True s have "formal p r [] = r" using p by (simp add: formal_def Let_def)
  moreover have "r \<noteq> p @ ''_'' @ r" by (metis append_self_conv2 append_is_Nil_conv append_assoc p)
  ultimately show ?thesis using True by (simp add: strips_def)
next
  case False
  let ?parts = "Split CHR ''_'' p"
  show ?thesis
  proof (cases "formal_suffix ?parts (length ?parts) r")
    case None
    then have "\<not> strips p r"
      using False by (auto simp: strips_def formal_suffix_None list_ex_iff)
    moreover have "formal p r [] = p @ ''_'' @ r"
      using p s False None by (simp add: formal_def Let_def)
    ultimately show ?thesis by simp
  next
    case (Some rest)
    then have "length rest < length r" by (rule formal_suffix_Some)
    then have "p @ ''_'' @ rest \<noteq> p @ ''_'' @ r" by auto
    moreover have "formal p r [] = p @ ''_'' @ rest"
      using p s False Some by (simp add: formal_def Let_def)
    moreover have "strips p r"
    proof -
      from Some have "\<not> (\<forall>i<length ?parts. \<not> HasPrefix r (Join (drop i ?parts) ''_'' @ ''_''))"
        using formal_suffix_None [of ?parts "length ?parts" r] by simp
      then show ?thesis by (auto simp: strips_def list_ex_iff)
    qed
    ultimately show ?thesis by simp
  qed
qed

text \<open>
  C7, as the code has it. \<open>ToSnake\<close> is idempotent on every string. Let \<open>f\<close> be a formal
  table name under the stored prefix (\<open>formal\<close> leaves it as it is) whose alias is in
  snake case (\<open>ToSnake\<close> leaves the alias as it is). With an empty prefix both round
  trips hold. With a prefix, \<open>formal (alias f) = f\<close> holds exactly when the alias does
  not begin with the prefix and an underscore, nor with an underscore-joined suffix of
  the prefix's parts and an underscore (\<open>strips\<close>); and in that case
  \<open>alias (formal (alias f)) = alias f\<close> holds as well.
\<close>

theorem name_round_trips:
  assumes "formal p f [] = f" and "ToSnake (alias_name p f) = alias_name p f"
  shows "ToSnake (ToSnake x) = ToSnake x
       \<and> (formal p (alias_name p f) [] = f) = (p = [] \<or> \<not> strips p (alias_name p f))
       \<and> (p = [] \<or> \<not> strips p (alias_name p f)
            \<longrightarrow> alias_name p (formal p (alias_name p f) []) = alias_name p f)"
proof (cases "p = []")
  case True
  with assms show ?thesis by (simp add: formal_def alias_name_def Let_def ToSnake_idem)
next
  case False
  have f: "f = p @ ''_'' @ alias_name p f"
    using formal_alias [OF False, of f] assms(1) by simp
  have "(formal p (alias_name p f) [] = p @ ''_'' @ alias_name p f) = (\<not> strips p (alias_name p f))"
    using False assms(2) by (rule formal_of_snake)
  with f have r: "(formal p (alias_name p f) [] = f) = (\<not> strips p (alias_name p f))" by simp
  then show ?thesis using False by (auto simp: ToSnake_idem)
qed

theorem name_round_trips_witness:
  "formal ''be_eql'' ''be_eql_page'' [] = ''be_eql_page''
   \<and> ToSnake (alias_name ''be_eql'' ''be_eql_page'') = alias_name ''be_eql'' ''be_eql_page''
   \<and> alias_name ''be_eql'' ''be_eql_page'' = ''page''
   \<and> \<not> strips ''be_eql'' ''page''
   \<and> ToSnake (ToSnake ''PageWords2'') = ToSnake ''PageWords2''
   \<and> formal ''be_eql'' (alias_name ''be_eql'' ''be_eql_page'') [] = ''be_eql_page''
   \<and> alias_name ''be_eql'' (formal ''be_eql'' (alias_name ''be_eql'' ''be_eql_page'') []) = ''page''
   \<and> formal ''be_eql'' ''be_eql_eql_page'' [] = ''be_eql_eql_page''
   \<and> ToSnake (alias_name ''be_eql'' ''be_eql_eql_page'') = alias_name ''be_eql'' ''be_eql_eql_page''
   \<and> alias_name ''be_eql'' ''be_eql_eql_page'' = ''eql_page''
   \<and> strips ''be_eql'' ''eql_page''
   \<and> formal ''be_eql'' (alias_name ''be_eql'' ''be_eql_eql_page'') [] \<noteq> ''be_eql_eql_page''"
proof -
  have f: "formal ''be_eql'' ''be_eql_page'' [] = ''be_eql_page''" by code_simp
  have a: "alias_name ''be_eql'' ''be_eql_page'' = ''page''" by code_simp
  have sa: "ToSnake ''page'' = ''page''" by code_simp
  have s: "ToSnake (alias_name ''be_eql'' ''be_eql_page'') = alias_name ''be_eql'' ''be_eql_page''"
    by (simp add: a sa)
  have n: "\<not> strips ''be_eql'' ''page''" by code_simp
  have f2: "formal ''be_eql'' ''be_eql_eql_page'' [] = ''be_eql_eql_page''" by code_simp
  have a2: "alias_name ''be_eql'' ''be_eql_eql_page'' = ''eql_page''" by code_simp
  have sa2: "ToSnake ''eql_page'' = ''eql_page''" by code_simp
  have s2: "ToSnake (alias_name ''be_eql'' ''be_eql_eql_page'') = alias_name ''be_eql'' ''be_eql_eql_page''"
    by (simp add: a2 sa2)
  have y: "strips ''be_eql'' ''eql_page''" by code_simp
  show ?thesis
    using name_round_trips [OF f s, of "''PageWords2''"] name_round_trips [OF f2 s2, of "''PageWords2''"]
      f a s n f2 a2 s2 y
    by simp
qed

text \<open>
  C7 as stated fails: under the prefix \<^verbatim>\<open>be_eql\<close> the formal name
  \<^verbatim>\<open>be_eql_eql_page\<close> has the alias \<^verbatim>\<open>eql_page\<close>, whose leading \<^verbatim>\<open>eql_\<close> is a
  suffix of the prefix and is therefore stripped by \<open>formal\<close>: the round trip yields
  \<^verbatim>\<open>be_eql_page\<close>, and the alias of that is \<^verbatim>\<open>page\<close>.
\<close>

theorem name_round_trip_counterexample:
  "formal ''be_eql'' ''be_eql_eql_page'' [] = ''be_eql_eql_page''
   \<and> alias_name ''be_eql'' ''be_eql_eql_page'' = ''eql_page''
   \<and> formal ''be_eql'' (alias_name ''be_eql'' ''be_eql_eql_page'') [] = ''be_eql_page''
   \<and> formal ''be_eql'' (alias_name ''be_eql'' ''be_eql_eql_page'') [] \<noteq> ''be_eql_eql_page''
   \<and> alias_name ''be_eql'' (formal ''be_eql'' (alias_name ''be_eql'' ''be_eql_eql_page'') []) = ''page''
   \<and> alias_name ''be_eql'' (formal ''be_eql'' (alias_name ''be_eql'' ''be_eql_eql_page'') [])
       \<noteq> alias_name ''be_eql'' ''be_eql_eql_page''"
proof -
  have f: "formal ''be_eql'' ''be_eql_eql_page'' [] = ''be_eql_eql_page''" by code_simp
  have a: "alias_name ''be_eql'' ''be_eql_eql_page'' = ''eql_page''" by code_simp
  have g: "formal ''be_eql'' ''eql_page'' [] = ''be_eql_page''" by code_simp
  have b: "alias_name ''be_eql'' ''be_eql_page'' = ''page''" by code_simp
  show ?thesis by (simp add: f a g b)
qed

section \<open>Configuration and its validation (config.go, config_validators.go)\<close>
























section \<open>Validate and cycles\<close>





































section \<open>Engine facade: Close, Ready and the guarded operations (enjinql.go)\<close>

text \<open>
  The engine keeps a \<^verbatim>\<open>closed\<close> flag and borrows a \<^verbatim>\<open>*sql.DB\<close> handle. The handle
  is outside the program, so the model records every call made on it (and on the
  transactions it opens) in a trace, and takes the driver's answer to each call from a
  function \<open>drv\<close>. What the schema and the SQL builder answer for one configured source
  during DDL is likewise an input (\<open>ddl_source\<close>).
\<close>

datatype db_call =
    DbClose
  | DbBegin
  | DbExec string
  | DbQuery string
  | TxExec string
  | TxCommit
  | TxRollback

type_synonym driver = "db_call \<Rightarrow> error option"

record ddl_index =
  index_name :: string
  index_sql :: "error + string"

record ddl_source =
  sc_name :: string
  source_found :: bool
  source_formal :: string
  table_found :: bool
  create_table_sql :: "error + string"
  source_indexes :: "ddl_index list"

record enjinql =
  closed :: bool
  sources_ddl :: "ddl_source list"
  db_calls :: "db_call list"

definition call_db :: "driver \<Rightarrow> db_call \<Rightarrow> enjinql \<Rightarrow> enjinql \<times> error option" where
  "call_db drv c eql = (eql\<lparr>db_calls := db_calls eql @ [c]\<rparr>, drv c)"

definition Close :: "driver \<Rightarrow> enjinql \<Rightarrow> enjinql \<times> error option" where
  "Close drv eql =
     (if \<not> closed eql then call_db drv DbClose (eql\<lparr>closed := True\<rparr>)
      else (eql, None))"

definition Ready :: "enjinql \<Rightarrow> error option" where
  "Ready eql = (if closed eql then Some ErrConnDone else None)"

text \<open>One iteration of the loop of \<^verbatim>\<open>CreateTables\<close>: begin a transaction, look the
  source and its table up, build the statement, execute and commit; every failure rolls
  the transaction back (the result of the rollback is discarded).\<close>

definition rollback :: "driver \<Rightarrow> enjinql \<Rightarrow> enjinql" where
  "rollback drv eql = fst (call_db drv TxRollback eql)"

definition create_table_step :: "driver \<Rightarrow> ddl_source \<Rightarrow> enjinql \<Rightarrow> enjinql \<times> error option" where
  "create_table_step drv sc eql =
     (case call_db drv DbBegin eql of
        (e1, Some err) \<Rightarrow> (e1, Some err)
      | (e1, None) \<Rightarrow>
          if \<not> source_found sc then (rollback drv e1, Some (ErrSourceNotFound (sc_name sc)))
          else if \<not> table_found sc then (rollback drv e1, Some (ErrTableNotFound (source_formal sc)))
          else (case create_table_sql sc of
              Inl err \<Rightarrow> (rollback drv e1, Some (ErrCreateTableSQL (source_formal sc) err))
            | Inr query \<Rightarrow>
                (case call_db drv (TxExec query) e1 of
                   (e2, Some err) \<Rightarrow> (rollback drv e2, Some (ErrCreateTable (source_formal sc) err))
                 | (e2, None) \<Rightarrow>
                     (case call_db drv TxCommit e2 of
                        (e3, Some err) \<Rightarrow> (rollback drv e3, Some (ErrCommitting err))
                      | (e3, None) \<Rightarrow> (e3, None)))))"

fun create_tables_loop :: "driver \<Rightarrow> ddl_source list \<Rightarrow> enjinql \<Rightarrow> enjinql \<times> error option" where
  "create_tables_loop drv [] eql = (eql, None)"
| "create_tables_loop drv (sc # rest) eql =
     (case create_table_step drv sc eql of
        (e1, Some err) \<Rightarrow> (e1, Some err)
      | (e1, None) \<Rightarrow> create_tables_loop drv rest e1)"

definition CreateTables :: "driver \<Rightarrow> enjinql \<Rightarrow> enjinql \<times> error option" where
  "CreateTables drv eql =
     (case Ready eql of
        Some err \<Rightarrow> (eql, Some err)
      | None \<Rightarrow> create_tables_loop drv (sources_ddl eql) eql)"

text \<open>\<^verbatim>\<open>CreateIndexes\<close>: for every index of every source, begin a transaction, build
  the statement, execute it on the handle itself (\<^verbatim>\<open>eql.db.Exec\<close>) and commit.\<close>

definition create_index_step :: "driver \<Rightarrow> ddl_index \<Rightarrow> enjinql \<Rightarrow> enjinql \<times> error option" where
  "create_index_step drv ix eql =
     (case call_db drv DbBegin eql of
        (e1, Some err) \<Rightarrow> (e1, Some err)
      | (e1, None) \<Rightarrow>
          (case index_sql ix of
             Inl err \<Rightarrow> (rollback drv e1, Some (ErrCreateIndexSQL (index_name ix) err))
           | Inr query \<Rightarrow>
               (case call_db drv (DbExec query) e1 of
                  (e2, Some err) \<Rightarrow> (rollback drv e2, Some (ErrCreateIndex (index_name ix) err))
                | (e2, None) \<Rightarrow>
                    (case call_db drv TxCommit e2 of
                       (e3, Some err) \<Rightarrow> (rollback drv e3, Some (ErrCommitting err))
                     | (e3, None) \<Rightarrow> (e3, None)))))"

fun create_index_loop :: "driver \<Rightarrow> ddl_index list \<Rightarrow> enjinql \<Rightarrow> enjinql \<times> error option" where
  "create_index_loop drv [] eql = (eql, None)"
| "create_index_loop drv (ix # rest) eql =
     (case create_index_step drv ix eql of
        (e1, Some err) \<Rightarrow> (e1, Some err)
      | (e1, None) \<Rightarrow> create_index_loop drv rest e1)"

fun create_indexes_loop :: "driver \<Rightarrow> ddl_source list \<Rightarrow> enjinql \<Rightarrow> enjinql \<times> error option" where
  "create_indexes_loop drv [] eql = (eql, None)"
| "create_indexes_loop drv (sc # rest) eql =
     (if \<not> source_found sc then (eql, Some (ErrSourceNotFound (sc_name sc)))
      else if \<not> table_found sc then (eql, Some (ErrTableNotFound (source_formal sc)))
      else (case create_index_loop drv (source_indexes sc) eql of
              (e1, Some err) \<Rightarrow> (e1, Some err)
            | (e1, None) \<Rightarrow> create_indexes_loop drv rest e1))"

definition CreateIndexes :: "driver \<Rightarrow> enjinql \<Rightarrow> enjinql \<times> error option" where
  "CreateIndexes drv eql =
     (case Ready eql of
        Some err \<Rightarrow> (eql, Some err)
      | None \<Rightarrow> create_indexes_loop drv (sources_ddl eql) eql)"

text \<open>\<^verbatim>\<open>SqlExec\<close> and \<^verbatim>\<open>SqlQuery\<close> wrap one call on the handle; the rows and the
  \<^verbatim>\<open>sql.Result\<close> are the driver's and are not modelled further.\<close>

definition SqlExec :: "driver \<Rightarrow> string \<Rightarrow> enjinql \<Rightarrow> enjinql \<times> error option" where
  "SqlExec drv query eql =
     (case Ready eql of
        Some err \<Rightarrow> (eql, Some err)
      | None \<Rightarrow> call_db drv (DbExec query) eql)"

definition SqlQuery :: "driver \<Rightarrow> string \<Rightarrow> enjinql \<Rightarrow> enjinql \<times> error option" where
  "SqlQuery drv query eql =
     (case Ready eql of
        Some err \<Rightarrow> (eql, Some err)
      | None \<Rightarrow> call_db drv (DbQuery query) eql)"

text \<open>\<^verbatim>\<open>Perform\<close> checks readiness, compiles the statement with \<^verbatim>\<open>ToSQL\<close> (no
  database call; its outcome is the argument \<open>compiled\<close>) and runs \<^verbatim>\<open>SqlQuery\<close>.\<close>

definition Perform :: "driver \<Rightarrow> (error + string) \<Rightarrow> enjinql \<Rightarrow> enjinql \<times> error option" where
  "Perform drv compiled eql =
     (case Ready eql of
        Some err \<Rightarrow> (eql, Some err)
      | None \<Rightarrow>
          (case compiled of
             Inl err \<Rightarrow> (eql, Some err)
           | Inr query \<Rightarrow> SqlQuery drv query eql))"

definition closes :: "enjinql \<Rightarrow> nat" where
  "closes eql = count_list (db_calls eql) DbClose"

section \<open>Closing the engine\<close>

lemma Ready_closed: "closed eql \<Longrightarrow> Ready eql = Some ErrConnDone"
  by (simp add: Ready_def)

lemma Close_sets_closed: "closed (fst (Close drv eql))"
  by (simp add: Close_def call_db_def)

lemma Close_trace:
  "\<not> closed eql \<Longrightarrow> db_calls (fst (Close drv eql)) = db_calls eql @ [DbClose]"
  by (simp add: Close_def call_db_def)

text \<open>
  C10. Take an engine that is still open and close it. Whatever the driver answers to
  the close of the handle, the flag is set, \<^verbatim>\<open>Ready\<close> returns \<^verbatim>\<open>sql.ErrConnDone\<close>,
  each of \<^verbatim>\<open>Perform\<close>, \<^verbatim>\<open>SqlExec\<close>, \<^verbatim>\<open>SqlQuery\<close>, \<^verbatim>\<open>CreateTables\<close> and
  \<^verbatim>\<open>CreateIndexes\<close> returns \<^verbatim>\<open>sql.ErrConnDone\<close> and leaves the engine, and so the
  trace of database calls, as it was; a second \<^verbatim>\<open>Close\<close> returns nil and changes
  nothing, so the handle has been closed exactly once more than before the first
  \<^verbatim>\<open>Close\<close>.
\<close>

theorem close_then_guarded:
  assumes "\<not> closed eql" and "Close drv eql = (eql', r)"
  shows "closed eql'
       \<and> r = drv DbClose
       \<and> Ready eql' = Some ErrConnDone
       \<and> Perform drv' compiled eql' = (eql', Some ErrConnDone)
       \<and> SqlExec drv' q eql' = (eql', Some ErrConnDone)
       \<and> SqlQuery drv' q eql' = (eql', Some ErrConnDone)
       \<and> CreateTables drv' eql' = (eql', Some ErrConnDone)
       \<and> CreateIndexes drv' eql' = (eql', Some ErrConnDone)
       \<and> Close drv' eql' = (eql', None)
       \<and> closes eql' = Suc (closes eql)"
proof -
  from assms have e: "eql' = eql\<lparr>closed := True, db_calls := db_calls eql @ [DbClose]\<rparr>"
    and r: "r = drv DbClose"
    by (auto simp: Close_def call_db_def)
  have c: "closed eql'" by (simp add: e)
  have rd: "Ready eql' = Some ErrConnDone" using c by (rule Ready_closed)
  have n: "closes eql' = Suc (closes eql)" by (simp add: e closes_def)
  show ?thesis
    using c r rd n
    by (simp add: Perform_def SqlExec_def SqlQuery_def CreateTables_def
        CreateIndexes_def Close_def)
qed

definition open_engine :: enjinql where
  "open_engine = \<lparr>closed = False,
     sources_ddl = [\<lparr>sc_name = ''page'', source_found = True, source_formal = ''be_eql_page'',
        table_found = True, create_table_sql = Inr ''CREATE TABLE'', source_indexes = []\<rparr>],
     db_calls = [DbBegin, TxExec ''CREATE TABLE'', TxCommit]\<rparr>"

definition ok_driver :: driver where
  "ok_driver c = None"

theorem close_then_guarded_witness:
  "\<not> closed open_engine
   \<and> Close ok_driver open_engine = (open_engine\<lparr>closed := True, db_calls := db_calls open_engine @ [DbClose]\<rparr>, None)
   \<and> CreateTables ok_driver (fst (Close ok_driver open_engine)) = (fst (Close ok_driver open_engine), Some ErrConnDone)
   \<and> Close ok_driver (fst (Close ok_driver open_engine)) = (fst (Close ok_driver open_engine), None)
   \<and> closes (fst (Close ok_driver open_engine)) = 1"
proof -
  have o: "\<not> closed open_engine" by (simp add: open_engine_def)
  have cl: "Close ok_driver open_engine
      = (open_engine\<lparr>closed := True, db_calls := db_calls open_engine @ [DbClose]\<rparr>, None)"
    by (simp add: Close_def call_db_def open_engine_def ok_driver_def)
  have z: "closes open_engine = 0" by (simp add: closes_def open_engine_def)
  show ?thesis
    using close_then_guarded [OF o cl, of ok_driver "Inr ''SELECT''" "''SELECT''"] o cl z
    by simp
qed

section \<open>Relationship graph and planner\<close>

text \<open>
  The types of the source graph. A node's \<^verbatim>\<open>link\<close> map is an association list from the
  linked source's name to the join.
\<close>

record gSourceTableKey =
  tk_table :: string
  tk_key :: string

record gSourceJoin =
  join_table :: string
  this :: gSourceTableKey
  other :: gSourceTableKey

definition newSourceTableKey :: "string \<Rightarrow> string \<Rightarrow> gSourceTableKey" where
  "newSourceTableKey t k = \<lparr>tk_table = t, tk_key = k\<rparr>"

definition newSourceJoin :: "string \<Rightarrow> string \<Rightarrow> gSourceTableKey \<Rightarrow> gSourceJoin" where
  "newSourceJoin t k oth = \<lparr>join_table = t, this = \<lparr>tk_table = t, tk_key = k\<rparr>, other = oth\<rparr>"

record gSourcePlan =
  top :: string
  joins :: "gSourceJoin list"
  require :: "string list"
  topNote :: string

definition newSourcePlan :: "string \<Rightarrow> gSourcePlan" where
  "newSourcePlan t = \<lparr>top = t, joins = [], require = [], topNote = []\<rparr>"

definition Has :: "gSourcePlan \<Rightarrow> string \<Rightarrow> bool" where
  "Has g n = (top g = n \<or> n \<in> set (map join_table (joins g)))"

definition add_join :: "gSourcePlan \<Rightarrow> gSourceJoin \<Rightarrow> gSourcePlan" where
  "add_join g j = (if \<not> Has g (join_table j) then g\<lparr>joins := joins g @ [j]\<rparr> else g)"

record gSourceNode =
  node_name :: string
  node_parent :: "gSourceJoin option"
  node_link :: "(string \<times> gSourceJoin) list"

definition newSourceNodeData :: "string \<Rightarrow> gSourceNode" where
  "newSourceNodeData n = \<lparr>node_name = n, node_parent = None, node_link = []\<rparr>"

definition isData :: "gSourceNode \<Rightarrow> bool" where
  "isData g = (if node_parent g \<noteq> None \<or> length (node_link g) > 0 then False else True)"

text \<open>
  The graph keeps its nodes in the order they were added (\<^verbatim>\<open>lookup\<close> is the map from a
  name to the node of that name) and owns a graph of the library
  github.com/dominikbraun/graph, created by \<^verbatim>\<open>graph.New(gSourceHash)\<close> with no option,
  that is, an undirected graph: its vertices are names and each edge carries a join.
  The library is not among the sources; \<open>vertices\<close> and \<open>edges\<close> are its state, and
  adding an edge fails when an end is not a vertex or the two ends are joined already.
\<close>

record gSourceGraph =
  primary :: string
  nodes :: "gSourceNode list"
  vertices :: "string list"
  edges :: "(string \<times> string \<times> gSourceJoin) list"

definition newSourceGraph :: gSourceGraph where
  "newSourceGraph = \<lparr>primary = [], nodes = [], vertices = [], edges = []\<rparr>"

definition getNode :: "gSourceGraph \<Rightarrow> string \<Rightarrow> gSourceNode option" where
  "getNode g n = find (\<lambda>node. node_name node = n) (nodes g)"

definition Edge :: "gSourceGraph \<Rightarrow> string \<Rightarrow> string \<Rightarrow> gSourceJoin option" where
  "Edge g a b =
     (case find (\<lambda>(x, y, j). (x = a \<and> y = b) \<or> (x = b \<and> y = a)) (edges g) of
        Some (x, y, j) \<Rightarrow> Some j
      | None \<Rightarrow> None)"

definition addEdgeUnsafe :: "gSourceGraph \<Rightarrow> string \<Rightarrow> string \<Rightarrow> gSourceJoin \<Rightarrow> error + gSourceGraph" where
  "addEdgeUnsafe g a b j =
     (if a \<notin> set (vertices g) \<or> b \<notin> set (vertices g) \<or> Edge g a b \<noteq> None
      then Inl (ErrAddingEdge a b)
      else Inr (g\<lparr>edges := edges g @ [(a, b, j)]\<rparr>))"

fun add_link_edges :: "gSourceGraph \<Rightarrow> string \<Rightarrow> (string \<times> gSourceJoin) list \<Rightarrow> error + gSourceGraph" where
  "add_link_edges g n [] = Inr g"
| "add_link_edges g n ((k, link) # rest) =
     (case addEdgeUnsafe g n (join_table link) link of
        Inl e \<Rightarrow> Inl e
      | Inr g' \<Rightarrow> add_link_edges g' n rest)"

definition addVertexUnsafe :: "gSourceGraph \<Rightarrow> gSourceNode \<Rightarrow> error + gSourceGraph" where
  "addVertexUnsafe g node =
     (if node_name node \<in> set (vertices g) then Inl (ErrAddingVertex (node_name node))
      else
        (let g1 = g\<lparr>vertices := vertices g @ [node_name node]\<rparr>
         in case node_parent node of
              Some p \<Rightarrow>
                (case addEdgeUnsafe g1 (tk_table (other p)) (node_name node) p of
                   Inl e \<Rightarrow> Inl e
                 | Inr g2 \<Rightarrow> add_link_edges g2 (node_name node) (node_link node))
            | None \<Rightarrow> add_link_edges g1 (node_name node) (node_link node)))"

fun Add :: "gSourceGraph \<Rightarrow> gSourceNode list \<Rightarrow> error + gSourceGraph" where
  "Add g [] = Inr g"
| "Add g (node # rest) =
     (if getNode g (node_name node) = None then
        (let g1 = (if length (nodes g) = 0 then g\<lparr>primary := node_name node\<rparr> else g);
             g2 = g1\<lparr>nodes := nodes g1 @ [node]\<rparr>
         in case addVertexUnsafe g2 node of
              Inl e \<Rightarrow> Inl e
            | Inr g3 \<Rightarrow> Add g3 rest)
      else Add g rest)"

text \<open>
  \<^verbatim>\<open>validate\<close>: Kahn's algorithm over the map from each node to the names it depends on
  (its parent and its links). \<open>pending\<close> is that map as an association list.
\<close>

definition node_deps :: "gSourceNode \<Rightarrow> string list" where
  "node_deps node =
     (case node_parent node of Some p \<Rightarrow> [tk_table (other p)] | None \<Rightarrow> []) @ map fst (node_link node)"

definition empties_of :: "(string \<times> string list) list \<Rightarrow> string list" where
  "empties_of pending = map fst (filter (\<lambda>(n, deps). deps = []) pending)"

definition remove_ready :: "string list \<Rightarrow> (string \<times> string list) list \<Rightarrow> (string \<times> string list) list" where
  "remove_ready empties pending =
     map (\<lambda>(n, deps). (n, filter (\<lambda>d. d \<notin> set empties) deps))
       (filter (\<lambda>(n, deps). n \<notin> set empties) pending)"

lemma remove_ready_shorter:
  "empties_of pending \<noteq> [] \<Longrightarrow> length (remove_ready (empties_of pending) pending) < length pending"
proof -
  assume "empties_of pending \<noteq> []"
  then obtain n deps where m: "(n, deps) \<in> set pending" and "deps = []"
    by (auto simp: empties_of_def filter_empty_conv)
  then have "n \<in> set (empties_of pending)" by (force simp: empties_of_def)
  with m have "\<exists>x\<in>set pending. \<not> (case x of (n, deps) \<Rightarrow> n \<notin> set (empties_of pending))" by force
  then have "length (filter (\<lambda>(n, deps). n \<notin> set (empties_of pending)) pending) < length pending"
    by (metis (mono_tags, lifting) length_filter_less)
  then show ?thesis by (simp add: remove_ready_def)
qed

function resolve_pending :: "(string \<times> string list) list \<Rightarrow> error option" where
  "resolve_pending pending =
     (if pending = [] then None
      else if empties_of pending = [] then Some (ErrCircularDependency (sort (map fst pending)))
      else resolve_pending (remove_ready (empties_of pending) pending))"
  by pat_completeness auto
termination
  by (relation "measure length") (simp_all add: remove_ready_shorter)

declare resolve_pending.simps [simp del]

definition validate :: "gSourceGraph \<Rightarrow> error option" where
  "validate g = resolve_pending (map (\<lambda>node. (node_name node, node_deps node)) (nodes g))"

text \<open>
  \<^verbatim>\<open>slices.StackUnique\<close> (package github.com/go-corelibs/slices) is a list without
  repetitions: \<^verbatim>\<open>Push\<close> appends a value that is not present yet, \<^verbatim>\<open>First\<close> reads the
  first value, \<^verbatim>\<open>Unshift\<close> takes the first value off the list and \<^verbatim>\<open>Prune\<close> removes a
  value. A missing first value is Go's empty string.
\<close>

definition su_push :: "string list \<Rightarrow> string \<Rightarrow> string list" where
  "su_push xs x = (if x \<in> set xs then xs else xs @ [x])"

definition NewStackUnique :: "string list \<Rightarrow> string list" where
  "NewStackUnique items = foldl su_push [] items"

definition su_first :: "string list \<Rightarrow> string" where
  "su_first xs = (case xs of [] \<Rightarrow> [] | x # rest \<Rightarrow> x)"

definition su_unshift :: "string list \<Rightarrow> string \<times> string list" where
  "su_unshift xs = (case xs of [] \<Rightarrow> ([], []) | x # rest \<Rightarrow> (x, rest))"

definition su_prune :: "string list \<Rightarrow> string \<Rightarrow> string list" where
  "su_prune xs x = filter (\<lambda>y. y \<noteq> x) xs"

text \<open>
  \<^verbatim>\<open>search\<close> asks the library for a shortest path (\<^verbatim>\<open>graph.ShortestPath\<close>, Dijkstra's
  algorithm; every edge is added with weight 1). The model is a breadth-first search
  over the undirected edges, which finds a path of the fewest edges whenever there is a
  path at all. \<open>queue\<close> holds the paths found so far, each reversed.
\<close>

definition neighbours :: "gSourceGraph \<Rightarrow> string \<Rightarrow> string list" where
  "neighbours g v =
     remdups (concat (map (\<lambda>(x, y, j). if x = v then [y] else if y = v then [x] else []) (edges g)))"

definition endpoints :: "gSourceGraph \<Rightarrow> string set" where
  "endpoints g = set (concat (map (\<lambda>(x, y, j). [x, y]) (edges g)))"

lemma neighbours_endpoints: "set (neighbours g v) \<subseteq> endpoints g"
  by (auto simp: neighbours_def endpoints_def split: if_splits)

function bfs :: "gSourceGraph \<Rightarrow> string \<Rightarrow> string list \<Rightarrow> string list list \<Rightarrow> string list option" where
  "bfs g target visited [] = None"
| "bfs g target visited ([] # queue) = bfs g target visited queue"
| "bfs g target visited ((v # p) # queue) =
     (if v = target then Some (rev (v # p))
      else bfs g target
             (visited @ filter (\<lambda>n. n \<notin> set visited) (neighbours g v))
             (queue @ map (\<lambda>n. n # v # p) (filter (\<lambda>n. n \<notin> set visited) (neighbours g v))))"
  by pat_completeness auto
termination
proof (relation "inv_image (less_than <*lex*> less_than)
    (\<lambda>(g, target, visited, queue). (card (endpoints g - set visited), length queue))")
  show "wf (inv_image (less_than <*lex*> less_than)
    (\<lambda>(g, target, visited, queue). (card (endpoints g - set visited), length queue)))"
    by (intro wf_inv_image wf_lex_prod wf_less_than)
next
  fix g :: gSourceGraph and target :: string and visited :: "string list" and queue :: "string list list"
  show "((g, target, visited, queue), (g, target, visited, [] # queue))
    \<in> inv_image (less_than <*lex*> less_than)
        (\<lambda>(g, target, visited, queue). (card (endpoints g - set visited), length queue))"
    by simp
next
  fix g :: gSourceGraph and target :: string and visited :: "string list"
    and queue :: "string list list" and v :: string and p :: "string list"
  let ?ns = "filter (\<lambda>n. n \<notin> set visited) (neighbours g v)"
  have fin: "finite (endpoints g)" unfolding endpoints_def by (rule finite_set)
  show "((g, target, visited @ ?ns, queue @ map (\<lambda>n. n # v # p) ?ns), (g, target, visited, (v # p) # queue))
    \<in> inv_image (less_than <*lex*> less_than)
        (\<lambda>(g, target, visited, queue). (card (endpoints g - set visited), length queue))"
  proof (cases "?ns = []")
    case True
    then show ?thesis by simp
  next
    case False
    then obtain n where n: "n \<in> set ?ns" by (cases ?ns) auto
    then have "n \<in> endpoints g - set visited" using neighbours_endpoints by auto
    moreover have "n \<notin> endpoints g - set (visited @ ?ns)" using n by simp
    moreover have "endpoints g - set (visited @ ?ns) \<subseteq> endpoints g - set visited" by auto
    ultimately have "endpoints g - set (visited @ ?ns) \<subset> endpoints g - set visited" by blast
    then have "card (endpoints g - set (visited @ ?ns)) < card (endpoints g - set visited)"
      using fin by (simp add: psubset_card_mono)
    then show ?thesis by simp
  qed
qed

definition search :: "gSourceGraph \<Rightarrow> string \<Rightarrow> string \<Rightarrow> error + string list" where
  "search g start finish =
     (case bfs g finish [start] [[start]] of
        Some path \<Rightarrow> Inr path
      | None \<Rightarrow> Inl (ErrSearching start finish))"

text \<open>
  \<^verbatim>\<open>planPrimaryTopsUnsafe\<close> prunes the stacks it is given in place and returns them with
  the source it found, the empty string when it found none.
\<close>

definition planPrimaryTopsUnsafe ::
  "gSourceGraph \<Rightarrow> string list \<Rightarrow> string list \<Rightarrow> string list \<Rightarrow> string list \<times> string list \<times> string" where
  "planPrimaryTopsUnsafe g tops parents sources =
     (case find (\<lambda>source. source = primary g) tops of
        Some source \<Rightarrow> (su_prune tops source, su_prune sources source, source)
      | None \<Rightarrow>
          (case find (\<lambda>parent. parent = primary g) parents of
             Some parent \<Rightarrow> (su_prune tops parent, su_prune sources parent, parent)
           | None \<Rightarrow> (tops, sources, [])))"

text \<open>
  The loop of \<^verbatim>\<open>plan\<close> that fills \<^verbatim>\<open>tops\<close> and \<^verbatim>\<open>parents\<close> from the pending sources.
  \<^verbatim>\<open>plan\<close> has checked before that every pending source has a node, so the first case
  of \<open>getNode\<close> below is never taken there.
\<close>

fun collect_tops :: "gSourceGraph \<Rightarrow> string list \<Rightarrow> string list \<Rightarrow> string list \<Rightarrow> string list \<times> string list" where
  "collect_tops g [] tops parents = (tops, parents)"
| "collect_tops g (source # rest) tops parents =
     (case getNode g source of
        None \<Rightarrow> collect_tops g rest tops parents
      | Some found \<Rightarrow>
          collect_tops g rest
            (if isData found then su_push tops (node_name found) else tops)
            (case node_parent found of
               Some p \<Rightarrow> su_push parents (tk_table (other p))
             | None \<Rightarrow> parents))"

text \<open>
  The choice of the top source: the two \<^verbatim>\<open>switch\<close> statements of \<^verbatim>\<open>plan\<close> after the case
  of a single source. The result is the top, its note and the pending stack as the
  choice leaves it.
\<close>

definition choose_top :: "gSourceGraph \<Rightarrow> string list \<Rightarrow> string \<times> string \<times> string list" where
  "choose_top g pending =
     (case collect_tops g pending [] [] of
        (tops, parents) \<Rightarrow>
          if length tops = 0 then
            (if length parents = 1 then (su_first parents, ''first parent'', pending)
             else
               (case planPrimaryTopsUnsafe g tops parents pending of
                  (tops1, pending1, t) \<Rightarrow>
                    if t = [] then
                      (case su_unshift pending1 of
                         (t1, pending2) \<Rightarrow> (t1, ''first required'', su_prune pending2 t1))
                    else (t, ''primary source'', pending1)))
          else
            (case planPrimaryTopsUnsafe g tops parents pending of
               (tops1, pending1, t) \<Rightarrow>
                 if t = [] then
                   (case su_unshift tops1 of
                      (t1, tops2) \<Rightarrow> (t1, ''first required'', su_prune pending1 t1))
                 else (t, ''primary source'', pending1)))"

fun path_joins :: "gSourceGraph \<Rightarrow> gSourcePlan \<Rightarrow> string list \<Rightarrow> gSourcePlan" where
  "path_joins g p (a # b # rest) =
     path_joins g
       (case Edge g a b of
          Some j \<Rightarrow> (if \<not> Has p (join_table j) then add_join p j else p)
        | None \<Rightarrow> p)
       (b # rest)"
| "path_joins g p [a] = p"
| "path_joins g p [] = p"

fun plan_loop :: "gSourceGraph \<Rightarrow> string \<Rightarrow> gSourcePlan \<Rightarrow> string list \<Rightarrow> error + gSourcePlan \<times> string list" where
  "plan_loop g t p [] = Inr (p, [])"
| "plan_loop g t p (source # pending) =
     (case search g t source of
        Inl e \<Rightarrow> Inl e
      | Inr path \<Rightarrow> plan_loop g t (path_joins g p path) pending)"

definition plan :: "gSourceGraph \<Rightarrow> string list \<Rightarrow> error + gSourcePlan" where
  "plan g required0 =
     (let count = length required0;
          required = (if count = 0 \<and> length (nodes g) > 0
                      then required0 @ [node_name (hd (nodes g))] else required0)
      in case validate g of
           Some e \<Rightarrow> Inl e
         | None \<Rightarrow>
             (let pending = NewStackUnique required
              in case find (\<lambda>source. getNode g source = None) pending of
                   Some source \<Rightarrow> Inl (ErrPlanSourceNotFound source)
                 | None \<Rightarrow>
                     if count = 1 then
                       Inr ((newSourcePlan (su_first pending))
                              \<lparr>require := required, topNote := ''only table''\<rparr>)
                     else
                       (case choose_top g pending of
                          (t, nt, pending1) \<Rightarrow>
                            if t = [] then Inl (ErrNoTopTable required)
                            else
                              (case plan_loop g t ((newSourcePlan t)\<lparr>require := required, topNote := nt\<rparr>) pending1 of
                                 Inl e \<Rightarrow> Inl e
                               | Inr (p, remaining) \<Rightarrow>
                                   if length remaining > 0 then Inl (ErrNotEnoughConstraints remaining)
                                   else Inr p))))"

text \<open>The graph of the repository's test \<^verbatim>\<open>TestSourceGraph\<close>.\<close>

definition child_node :: "string \<Rightarrow> string \<Rightarrow> string \<Rightarrow> (string \<times> gSourceJoin) list \<Rightarrow> gSourceNode" where
  "child_node n k parent_table links =
     \<lparr>node_name = n,
      node_parent = Some (newSourceJoin n k (newSourceTableKey parent_table ''id'')),
      node_link = links\<rparr>"

definition test_nodes :: "gSourceNode list" where
  "test_nodes =
     [newSourceNodeData ''page'',
      child_node ''permalink'' ''page_id'' ''page'' [],
      child_node ''redirect'' ''page_id'' ''page'' [],
      child_node ''title'' ''page_id'' ''page'' [],
      newSourceNodeData ''word'',
      child_node ''page_words'' ''page_id'' ''page''
        [(''word'', newSourceJoin ''word'' ''id'' (newSourceTableKey ''page_words'' ''word_id''))],
      child_node ''word_letters'' ''word_id'' ''word'' []]"

definition test_graph :: gSourceGraph where
  "test_graph = (case Add newSourceGraph test_nodes of Inr g \<Rightarrow> g | Inl e \<Rightarrow> newSourceGraph)"

text \<open>
  A schema that declares the sources page, author and word, and a source author_words
  whose parent is word and which links author.
\<close>

definition author_nodes :: "gSourceNode list" where
  "author_nodes =
     [newSourceNodeData ''page'',
      newSourceNodeData ''author'',
      newSourceNodeData ''word'',
      child_node ''author_words'' ''word_id'' ''word''
        [(''author'', newSourceJoin ''author'' ''id'' (newSourceTableKey ''author_words'' ''author_id''))]]"

definition author_graph :: gSourceGraph where
  "author_graph = (case Add newSourceGraph author_nodes of Inr g \<Rightarrow> g | Inl e \<Rightarrow> newSourceGraph)"

subsection \<open>The choice of the top source\<close>

text \<open>
  The required sources that are data sources, and the parents of the required sources,
  each in the order of the request (the pending stack).
\<close>

definition data_required :: "gSourceGraph \<Rightarrow> string list \<Rightarrow> string list" where
  "data_required g pending =
     filter (\<lambda>s. case getNode g s of Some n \<Rightarrow> isData n | None \<Rightarrow> False) pending"

definition parent_names :: "gSourceGraph \<Rightarrow> string list \<Rightarrow> string list" where
  "parent_names g pending =
     concat (map (\<lambda>s. case getNode g s of
                         Some n \<Rightarrow> (case node_parent n of Some p \<Rightarrow> [tk_table (other p)] | None \<Rightarrow> [])
                       | None \<Rightarrow> []) pending)"

definition parents_required :: "gSourceGraph \<Rightarrow> string list \<Rightarrow> string list" where
  "parents_required g pending = NewStackUnique (parent_names g pending)"

text \<open>The sources of \<open>xs\<close> in the order the schema declares them.\<close>

definition declared_order :: "gSourceGraph \<Rightarrow> string list \<Rightarrow> string list" where
  "declared_order g xs = filter (\<lambda>n. n \<in> set xs) (map node_name (nodes g))"

text \<open>
  The five rules, in their order; \<open>ordered_tops\<close> is the list of the required data
  sources in the order that the fourth rule reads.
\<close>

definition top_by_rules :: "string list \<Rightarrow> gSourceGraph \<Rightarrow> string list \<Rightarrow> string" where
  "top_by_rules ordered_tops g pending =
     (if primary g \<in> set (data_required g pending) then primary g
      else if primary g \<in> set (parents_required g pending) then primary g
      else if data_required g pending = [] \<and> length (parents_required g pending) = 1
        then su_first (parents_required g pending)
      else if ordered_tops \<noteq> [] then su_first ordered_tops
      else su_first pending)"

lemma foldl_su_push_set: "set (foldl su_push acc xs) = set acc \<union> set xs"
  by (induction xs arbitrary: acc) (auto simp: su_push_def)

lemma foldl_su_push_distinct: "distinct acc \<Longrightarrow> distinct (foldl su_push acc xs)"
  by (induction xs arbitrary: acc) (auto simp: su_push_def)

lemma foldl_su_push_fresh:
  "distinct xs \<Longrightarrow> set acc \<inter> set xs = {} \<Longrightarrow> foldl su_push acc xs = acc @ xs"
  by (induction xs arbitrary: acc) (auto simp: su_push_def)

lemma NewStackUnique_distinct: "distinct (NewStackUnique xs)"
  by (simp add: NewStackUnique_def foldl_su_push_distinct)

lemma NewStackUnique_set: "set (NewStackUnique xs) = set xs"
  by (simp add: NewStackUnique_def foldl_su_push_set)

lemma NewStackUnique_id: "distinct xs \<Longrightarrow> NewStackUnique xs = xs"
  using foldl_su_push_fresh [of xs "[]"] by (simp add: NewStackUnique_def)

lemma getNode_name: "getNode g s = Some n \<Longrightarrow> node_name n = s"
  unfolding getNode_def by (induction "nodes g") (auto dest: find_Some_iff [THEN iffD1])

lemma collect_tops_eq:
  "collect_tops g xs tops parents
     = (foldl su_push tops (data_required g xs), foldl su_push parents (parent_names g xs))"
proof (induction xs arbitrary: tops parents)
  case Nil
  then show ?case by (simp add: data_required_def parent_names_def)
next
  case (Cons s xs)
  show ?case
  proof (cases "getNode g s")
    case None
    then show ?thesis using Cons.IH by (simp add: data_required_def parent_names_def)
  next
    case (Some n)
    then have "node_name n = s" by (rule getNode_name)
    then show ?thesis using Some Cons.IH
      by (cases "node_parent n") (simp_all add: data_required_def parent_names_def)
  qed
qed

lemma collect_tops_start:
  "distinct pending \<Longrightarrow>
   collect_tops g pending [] [] = (data_required g pending, parents_required g pending)"
proof -
  assume "distinct pending"
  then have "distinct (data_required g pending)" by (simp add: data_required_def)
  then have "foldl su_push [] (data_required g pending) = data_required g pending"
    using foldl_su_push_fresh [of "data_required g pending" "[]"] by simp
  then show ?thesis by (simp add: collect_tops_eq parents_required_def NewStackUnique_def)
qed

lemma find_eq_Some: "find (\<lambda>x. x = a) xs = Some y \<Longrightarrow> y = a \<and> a \<in> set xs"
  by (induction xs) (auto split: if_splits)

lemma find_eq_None: "find (\<lambda>x. x = a) xs = None \<Longrightarrow> a \<notin> set xs"
  by (induction xs) (auto split: if_splits)

lemma planPrimary_cases:
  "planPrimaryTopsUnsafe g tops parents sources =
     (if primary g \<in> set tops \<or> primary g \<in> set parents
      then (su_prune tops (primary g), su_prune sources (primary g), primary g)
      else (tops, sources, []))"
proof (cases "find (\<lambda>source. source = primary g) tops")
  case (Some a)
  then show ?thesis using find_eq_Some [OF Some] by (simp add: planPrimaryTopsUnsafe_def)
next
  case None
  note n1 = this
  show ?thesis
  proof (cases "find (\<lambda>parent. parent = primary g) parents")
    case (Some a)
    then show ?thesis using find_eq_Some [OF Some] n1 by (simp add: planPrimaryTopsUnsafe_def)
  next
    case None
    then show ?thesis using find_eq_None [OF None] find_eq_None [OF n1] n1
      by (simp add: planPrimaryTopsUnsafe_def)
  qed
qed

lemma su_first_single: "length xs = 1 \<Longrightarrow> x \<in> set xs \<Longrightarrow> su_first xs = x"
  by (cases xs) (auto simp: su_first_def)

lemma choose_top_rules:
  assumes d: "distinct pending" and p: "primary g \<noteq> []"
  shows "fst (choose_top g pending) = top_by_rules (data_required g pending) g pending"
proof -
  let ?tops = "data_required g pending"
  let ?parents = "parents_required g pending"
  have c: "collect_tops g pending [] [] = (?tops, ?parents)" using d by (rule collect_tops_start)
  show ?thesis
  proof (cases "?tops = []")
    case True
    note t = this
    show ?thesis
    proof (cases "length ?parents = 1")
      case True
      then show ?thesis using t c
        by (auto simp: choose_top_def top_by_rules_def su_first_single)
    next
      case False
      then show ?thesis using t c p
        by (cases pending)
           (auto simp: choose_top_def top_by_rules_def planPrimary_cases su_unshift_def su_first_def)
    qed
  next
    case False
    then obtain a rest where ar: "?tops = a # rest" by (cases ?tops) auto
    show ?thesis
    proof (cases "primary g \<in> set ?tops \<or> primary g \<in> set ?parents")
      case True
      then show ?thesis using False c p
        by (auto simp: choose_top_def top_by_rules_def planPrimary_cases)
    next
      case False
      then show ?thesis using ar c p
        by (auto simp: choose_top_def top_by_rules_def planPrimary_cases su_unshift_def su_first_def)
    qed
  qed
qed

lemma top_add_join: "top (add_join p j) = top p"
  by (simp add: add_join_def)

lemma top_path_joins: "top (path_joins g p path) = top p"
  by (induction g p path rule: path_joins.induct) (auto simp: top_add_join split: option.splits)

lemma plan_loop_done: "plan_loop g t p pending = Inr (p', r) \<Longrightarrow> top p' = top p \<and> r = []"
  by (induction pending arbitrary: p) (auto simp: top_path_joins split: sum.splits)

lemma plan_top:
  assumes "plan g required = Inr p" and "2 \<le> length required"
  shows "top p = fst (choose_top g (NewStackUnique required))"
proof -
  obtain t nt pending1 where ct: "choose_top g (NewStackUnique required) = (t, nt, pending1)"
    by (cases "choose_top g (NewStackUnique required)") auto
  from assms(2) have l: "length required \<noteq> 0" "length required \<noteq> 1" by auto
  from assms(1) ct l obtain r where
    "plan_loop g t ((newSourcePlan t)\<lparr>require := required, topNote := nt\<rparr>) pending1 = Inr (p, r)"
    by (auto simp: plan_def Let_def split: option.splits if_splits sum.splits)
  then have "top p = t" using plan_loop_done by (fastforce simp: newSourcePlan_def)
  then show ?thesis using ct by simp
qed

lemma test_graph_eq: "Add newSourceGraph test_nodes = Inr test_graph"
  by code_simp

lemma author_graph_eq: "Add newSourceGraph author_nodes = Inr author_graph"
  by code_simp

text \<open>
  C2, as the code has it: for every request that names at least two different sources,
  over a graph whose primary source has a name, the top that \<^verbatim>\<open>plan\<close> chooses is the one
  the five rules give when the fourth rule reads the required data sources in the order
  of the request (the order of the pending stack, which drops repetitions), not in the
  order the schema declares them; and every plan that \<^verbatim>\<open>plan\<close> returns has that top.
\<close>

theorem plan_top_by_rules:
  assumes "2 \<le> card (set required)" and "primary g \<noteq> []"
  shows "fst (choose_top g (NewStackUnique required))
           = top_by_rules (data_required g (NewStackUnique required)) g (NewStackUnique required)
       \<and> (\<forall>p. plan g required = Inr p \<longrightarrow>
             top p = top_by_rules (data_required g (NewStackUnique required)) g (NewStackUnique required))"
proof -
  have r: "fst (choose_top g (NewStackUnique required))
           = top_by_rules (data_required g (NewStackUnique required)) g (NewStackUnique required)"
    using NewStackUnique_distinct assms(2) by (rule choose_top_rules)
  have "card (set required) \<le> length required" by (rule card_length)
  with assms(1) have "2 \<le> length required" by simp
  with r show ?thesis by (auto dest: plan_top)
qed

theorem plan_top_by_rules_witness:
  "2 \<le> card (set [''word'', ''title'']) \<and> primary test_graph \<noteq> []
   \<and> fst (choose_top test_graph (NewStackUnique [''word'', ''title''])) = ''page''
   \<and> top_by_rules (data_required test_graph (NewStackUnique [''word'', ''title''])) test_graph
        (NewStackUnique [''word'', ''title'']) = ''page''
   \<and> (case plan test_graph [''word'', ''title''] of
         Inr p \<Rightarrow> top p = ''page''
               \<and> map join_table (joins p) = [''page_words'', ''word'', ''title'']
       | Inl e \<Rightarrow> False)"
proof -
  have a: "2 \<le> card (set [''word'', ''title''])" by code_simp
  have b: "primary test_graph \<noteq> []" by code_simp
  have c: "top_by_rules (data_required test_graph (NewStackUnique [''word'', ''title''])) test_graph
        (NewStackUnique [''word'', ''title'']) = ''page''" by code_simp
  have d: "(case plan test_graph [''word'', ''title''] of
         Inr p \<Rightarrow> top p = ''page''
               \<and> map join_table (joins p) = [''page_words'', ''word'', ''title'']
       | Inl e \<Rightarrow> False)" by code_simp
  from plan_top_by_rules [OF a b] c
  have "fst (choose_top test_graph (NewStackUnique [''word'', ''title''])) = ''page''" by simp
  with a b c d show ?thesis by blast
qed

text \<open>
  The schema declares author before word, and author is also the first of the two by
  name; the request names word first. The fourth rule read in declaration order gives
  author; the code takes word, the first in the request.
\<close>

theorem plan_top_counterexample:
  "2 \<le> card (set [''word'', ''author'']) \<and> primary author_graph = ''page''
   \<and> map node_name (nodes author_graph) = [''page'', ''author'', ''word'', ''author_words'']
   \<and> validate author_graph = None
   \<and> top_by_rules (declared_order author_graph (data_required author_graph (NewStackUnique [''word'', ''author''])))
        author_graph (NewStackUnique [''word'', ''author'']) = ''author''
   \<and> fst (choose_top author_graph (NewStackUnique [''word'', ''author''])) = ''word''
   \<and> (case plan author_graph [''word'', ''author''] of
         Inr p \<Rightarrow> top p = ''word'' \<and> topNote p = ''first required''
               \<and> map join_table (joins p) = [''author_words'', ''author'']
       | Inl e \<Rightarrow> False)"
  by code_simp

lemma plan_test_expectations:
  "(case plan test_graph [''title''] of Inr p \<Rightarrow> top p = ''title'' \<and> joins p = [] | Inl e \<Rightarrow> False)
 \<and> (case plan test_graph [''title'', ''permalink'', ''redirect''] of Inr p \<Rightarrow> top p = ''page'' \<and> map join_table (joins p) = [''title'', ''permalink'', ''redirect''] | Inl e \<Rightarrow> False)
 \<and> (case plan test_graph [''word'', ''page''] of Inr p \<Rightarrow> top p = ''page'' \<and> map join_table (joins p) = [''page_words'', ''word''] | Inl e \<Rightarrow> False)
 \<and> (case plan test_graph [''word'', ''word_letters''] of Inr p \<Rightarrow> top p = ''word'' \<and> map join_table (joins p) = [''word_letters''] | Inl e \<Rightarrow> False)
 \<and> (case plan test_graph [''word'', ''word_letters'', ''permalink''] of Inr p \<Rightarrow> top p = ''page'' \<and> map join_table (joins p) = [''page_words'', ''word'', ''word_letters'', ''permalink''] | Inl e \<Rightarrow> False)
 \<and> (case plan test_graph [''page'', ''word_letters''] of Inr p \<Rightarrow> top p = ''page'' \<and> map join_table (joins p) = [''page_words'', ''word'', ''word_letters''] | Inl e \<Rightarrow> False)"
  by code_simp

end
